theory Spec2Isabelle
  imports Main "HOL-Library.Word"
begin

section \<open>Strings of the standard library\<close>

text \<open>
  A \<open>std::string\<close> is a sequence of bytes: a \<open>string\<close> (a \<open>char list\<close>) here.
  Positions and lengths are \<open>size_t\<close> in the source; they are natural numbers in the
  model. Every index the code computes is at most the length of a string plus three, so
  no index wraps around. \<open>std::string::npos\<close> is \<open>None\<close>.
\<close>

abbreviation bslash :: char where
  "bslash \<equiv> CHR 0x5C"

abbreviation fslash :: char where
  "fslash \<equiv> CHR 0x2F"

abbreviation dot :: char where
  "dot \<equiv> CHR 0x2E"

abbreviation newline :: char where
  "newline \<equiv> CHR 0x0A"

text \<open>\<open>s.find(pat)\<close>: the first position at which \<open>pat\<close> occurs in \<open>s\<close>.\<close>

fun str_find :: "string \<Rightarrow> string \<Rightarrow> nat option" where
  "str_find [] pat = (if pat = [] then Some 0 else None)"
| "str_find (c # cs) pat =
     (if take (length pat) (c # cs) = pat then Some 0
      else map_option Suc (str_find cs pat))"

text \<open>\<open>s.find_last_of(ch)\<close>: the last position of the character \<open>ch\<close> in \<open>s\<close>.\<close>

fun find_last_of :: "string \<Rightarrow> char \<Rightarrow> nat option" where
  "find_last_of [] ch = None"
| "find_last_of (c # cs) ch =
     (case find_last_of cs ch of
        Some p \<Rightarrow> Some (Suc p)
      | None \<Rightarrow> (if c = ch then Some 0 else None))"

text \<open>
  \<open>s.substr(pos, n)\<close> throws \<open>std::out_of_range\<close> when \<open>pos > s.size()\<close>, and
  \<open>s.at(p)\<close> when \<open>p >= s.size()\<close>. The exception is the value \<open>None\<close>. Where the
  source writes the count \<open>s.length() - pos\<close>, the subtraction wraps around only when
  \<open>pos > s.length()\<close>, and then \<open>substr\<close> throws whatever the count is.
\<close>

definition substr :: "string \<Rightarrow> nat \<Rightarrow> nat \<Rightarrow> string option" where
  "substr s pos n = (if pos > length s then None else Some (take n (drop pos s)))"

definition at :: "string \<Rightarrow> nat \<Rightarrow> char option" where
  "at s p = (if p < length s then Some (s ! p) else None)"

section \<open>Path utilities\<close>

text \<open>The first loop of \<open>System::fixPath\<close>: every forward slash becomes a backslash.\<close>

definition slashesToBackslashes :: "string \<Rightarrow> string" where
  "slashesToBackslashes s = map (\<lambda>c. if c = fslash then bslash else c) s"

text \<open>
  The second loop of \<open>System::fixPath\<close>: while a doubled backslash is found at \<open>p\<close>,
  the string becomes \<open>s.substr(0, p) + s.substr(p + 1, s.length() - p - 1)\<close>.
\<close>

function removeDoubles :: "string \<Rightarrow> string option" where
  "removeDoubles s =
     (case str_find s [bslash, bslash] of
        None \<Rightarrow> Some s
      | Some p \<Rightarrow>
          (case substr s 0 p of
             None \<Rightarrow> None
           | Some a \<Rightarrow>
               (case substr s (p + 1) (length s - p - 1) of
                  None \<Rightarrow> None
                | Some b \<Rightarrow> removeDoubles (a @ b))))"
  by pat_completeness auto
termination
  by (relation "measure length") (auto simp: substr_def split: if_splits)

declare removeDoubles.simps [simp del]

text \<open>The inner loop \<open>while (p > 0 && s.at(p) != '\\') p--;\<close> of the third loop.\<close>

fun scrollBack :: "string \<Rightarrow> nat \<Rightarrow> nat option" where
  "scrollBack s 0 = Some 0"
| "scrollBack s (Suc p) =
     (case at s (Suc p) of
        None \<Rightarrow> None
      | Some c \<Rightarrow> (if c \<noteq> bslash then scrollBack s p else Some (Suc p)))"

lemma scrollBack_le: "scrollBack s p = Some q \<Longrightarrow> q \<le> p"
  by (induction p) (auto split: option.splits if_splits)

text \<open>
  The third loop of \<open>System::fixPath\<close>: while the text backslash, dot, dot, backslash is
  found at \<open>p\<close>, the code scrolls back from \<open>p - 1\<close> to the previous backslash (or to
  the start) and cuts from there up to the backslash that ends the pattern.
\<close>

function collapseParentRefs :: "string \<Rightarrow> string option" where
  "collapseParentRefs s =
     (case str_find s [bslash, dot, dot, bslash] of
        None \<Rightarrow> Some s
      | Some p \<Rightarrow>
          (case scrollBack s (if p > 0 then p - 1 else p) of
             None \<Rightarrow> None
           | Some q \<Rightarrow>
               (case substr s 0 q of
                  None \<Rightarrow> None
                | Some a \<Rightarrow>
                    (case substr s (p + 3) (length s - (p + 3)) of
                       None \<Rightarrow> None
                     | Some b \<Rightarrow> collapseParentRefs (a @ b)))))"
  by pat_completeness auto
termination
proof (relation "measure length")
  show "wf (measure length)" by simp
next
  fix s :: string and p q a b
  assume "scrollBack s (if 0 < p then p - 1 else p) = Some q"
    and a: "substr s 0 q = Some a"
    and b: "substr s (p + 3) (length s - (p + 3)) = Some b"
  then have "q \<le> p"
    by (auto dest!: scrollBack_le split: if_splits)
  with a b show "(a @ b, s) \<in> measure length"
    by (auto simp: substr_def split: if_splits)
qed

declare collapseParentRefs.simps [simp del]

definition fixPath :: "string \<Rightarrow> string option" where
  "fixPath s =
     (case removeDoubles (slashesToBackslashes s) of
        None \<Rightarrow> None
      | Some s2 \<Rightarrow> collapseParentRefs s2)"

text \<open>\<open>System::removeFileEnding\<close>.\<close>

definition removeFileEnding :: "string \<Rightarrow> string option" where
  "removeFileEnding s =
     (case find_last_of s dot of
        Some pos \<Rightarrow> substr s 0 pos
      | None \<Rightarrow> Some s)"

text \<open>\<open>System::getFileDirectory\<close>.\<close>

definition getFileDirectory :: "string \<Rightarrow> string option" where
  "getFileDirectory s =
     (case find_last_of s bslash of
        Some pos \<Rightarrow> substr s 0 (pos + 1)
      | None \<Rightarrow>
          (case find_last_of s fslash of
             Some pos \<Rightarrow> substr s 0 (pos + 1)
           | None \<Rightarrow> Some s))"

text \<open>\<open>System::getFilename\<close>.\<close>

definition getFilename :: "string \<Rightarrow> string option" where
  "getFilename s =
     (case fixPath s of
        None \<Rightarrow> None
      | Some s' \<Rightarrow>
          (case find_last_of s' bslash of
             Some pos \<Rightarrow> substr s' (pos + 1) (length s' - pos - 1)
           | None \<Rightarrow> Some s'))"

section \<open>The 4x4 matrix of the axis swap\<close>

text \<open>
  Modelled from the spec: \<open>ei::Mat4x4\<close>, \<open>ei::identity4x4\<close>, the row access
  \<open>m(i)\<close>, \<open>operator*=\<close> and \<open>operator!=\<close> belong to the matrix library, which
  is not part of the sources. The spec describes them: an identity matrix, its two basis
  row-vectors swapped, and \<open>cumulative = cumulative * swapMatrix\<close> by matrix
  multiplication. The entries are \<open>float\<close> in the source. Every entry that arises from
  the identity by these operations is 0, 1 or -1, and every sum of products has at most one
  summand that is not zero, so the floating-point arithmetic is exact there and the entries
  are integers in the model.
\<close>

datatype vec4 = Vec4 int int int int

datatype mat4 = Mat4 vec4 vec4 vec4 vec4

definition identity4x4 :: mat4 where
  "identity4x4 = Mat4 (Vec4 1 0 0 0) (Vec4 0 1 0 0) (Vec4 0 0 1 0) (Vec4 0 0 0 1)"

fun el :: "vec4 \<Rightarrow> nat \<Rightarrow> int" where
  "el (Vec4 a b c d) j = (if j = 0 then a else if j = 1 then b else if j = 2 then c else d)"

fun mrow :: "mat4 \<Rightarrow> nat \<Rightarrow> vec4" where
  "mrow (Mat4 r0 r1 r2 r3) i =
     (if i = 0 then r0 else if i = 1 then r1 else if i = 2 then r2 else r3)"

fun set_mrow :: "mat4 \<Rightarrow> nat \<Rightarrow> vec4 \<Rightarrow> mat4" where
  "set_mrow (Mat4 r0 r1 r2 r3) i v =
     (if i = 0 then Mat4 v r1 r2 r3 else if i = 1 then Mat4 r0 v r2 r3
      else if i = 2 then Mat4 r0 r1 v r3 else Mat4 r0 r1 r2 v)"

definition mcol :: "mat4 \<Rightarrow> nat \<Rightarrow> vec4" where
  "mcol m j = Vec4 (el (mrow m 0) j) (el (mrow m 1) j) (el (mrow m 2) j) (el (mrow m 3) j)"

fun vdot :: "vec4 \<Rightarrow> vec4 \<Rightarrow> int" where
  "vdot (Vec4 a b c d) (Vec4 a' b' c' d') = a * a' + b * b' + c * c' + d * d'"

definition row_times :: "vec4 \<Rightarrow> mat4 \<Rightarrow> vec4" where
  "row_times r m = Vec4 (vdot r (mcol m 0)) (vdot r (mcol m 1)) (vdot r (mcol m 2)) (vdot r (mcol m 3))"

fun mat_mul :: "mat4 \<Rightarrow> mat4 \<Rightarrow> mat4" where
  "mat_mul (Mat4 r0 r1 r2 r3) m =
     Mat4 (row_times r0 m) (row_times r1 m) (row_times r2 m) (row_times r3 m)"

definition mtranspose :: "mat4 \<Rightarrow> mat4" where
  "mtranspose m = Mat4 (mcol m 0) (mcol m 1) (mcol m 2) (mcol m 3)"

text \<open>\<open>std::swap(m(a1), m(a2))\<close>: the rows \<open>a1\<close> and \<open>a2\<close> change places.\<close>

definition swap_rows :: "mat4 \<Rightarrow> nat \<Rightarrow> nat \<Rightarrow> mat4" where
  "swap_rows m a1 a2 = set_mrow (set_mrow m a1 (mrow m a2)) a2 (mrow m a1)"

section \<open>The process-wide state\<close>

text \<open>
  The statics of the file, the standard error stream (the text written so far), the
  console attribute that \<open>SetConsoleTextAttribute\<close> sets (only when the build is for
  \<open>_WIN32\<close>: the field \<open>win32\<close> says so), the number of times \<open>system("pause")\<close> ran,
  and the function-local static \<open>last\<close> of \<open>runtimeInfoSpam\<close>, which is \<open>None\<close>
  until control first passes its declaration. A message count is a \<open>size_t\<close>: a 64-bit
  word. Modelled from the spec: \<open>util::ArgumentSet\<close> is declared outside the sources;
  the model keeps the names of the flags that are set, and \<open>has\<close> is membership.
\<close>

type_synonym messages = "(string \<times> 64 word) list"

record sys_state =
  argSilent :: bool
  args :: "string list"
  win32 :: bool
  consoleAttr :: nat
  pauses :: nat
  cerr :: string
  s_outDir :: string
  s_warnings :: messages
  s_errors :: messages
  s_infos :: messages
  s_axisSwap :: mat4
  spam_last :: "64 word option"

text \<open>
  The state at the start of the process, for given arguments and platform; the console
  starts with the default attribute 7.
\<close>

definition init_state :: "bool \<Rightarrow> string list \<Rightarrow> bool \<Rightarrow> sys_state" where
  "init_state silent flags w =
     \<lparr>argSilent = silent, args = flags, win32 = w, consoleAttr = 7, pauses = 0, cerr = [],
      s_outDir = [], s_warnings = [], s_errors = [], s_infos = [],
      s_axisSwap = identity4x4, spam_last = None\<rparr>"

datatype error = OutOfRange | RuntimeError string | AssertionFailed

section \<open>The diagnostics log\<close>

definition setConsoleColor :: "nat \<Rightarrow> sys_state \<Rightarrow> sys_state" where
  "setConsoleColor wd s = (if win32 s then s\<lparr>consoleAttr := wd\<rparr> else s)"

definition setConsoleColorDefault :: "sys_state \<Rightarrow> sys_state" where
  "setConsoleColorDefault s = (if win32 s then s\<lparr>consoleAttr := 7\<rparr> else s)"

text \<open>
  \<open>addMessage\<close>: the vector after the call, and the returned flag (true if the message
  should be displayed).
\<close>

fun addMessage :: "messages \<Rightarrow> string \<Rightarrow> messages \<times> bool" where
  "addMessage [] msg = ([(msg, 1)], True)"
| "addMessage (e # vec) msg =
     (if fst e = msg then ((fst e, snd e + 1) # vec, snd e + 1 < 10)
      else (case addMessage vec msg of (vec', r) \<Rightarrow> (e # vec', r)))"

definition print_line :: "string \<Rightarrow> sys_state \<Rightarrow> sys_state" where
  "print_line l s = s\<lparr>cerr := cerr s @ l @ [newline]\<rparr>"

definition warning :: "string \<Rightarrow> sys_state \<Rightarrow> sys_state" where
  "warning txt s =
     (let s1 = setConsoleColor 14 s;
          (vec, display) = addMessage (s_warnings s1) txt;
          s2 = s1\<lparr>s_warnings := vec\<rparr>;
          s3 = (if display \<and> \<not> argSilent s2 then print_line (''WARNING: '' @ txt) s2 else s2)
      in setConsoleColorDefault s3)"

definition info :: "string \<Rightarrow> sys_state \<Rightarrow> sys_state" where
  "info txt s =
     (let (vec, display) = addMessage (s_infos s) txt;
          s1 = s\<lparr>s_infos := vec\<rparr>
      in if display \<and> \<not> argSilent s1 then print_line (''INFO: '' @ txt) s1 else s1)"

definition runtimeInfo :: "string \<Rightarrow> sys_state \<Rightarrow> sys_state" where
  "runtimeInfo txt s = (if \<not> argSilent s then print_line (''INFO: '' @ txt) s else s)"

text \<open>
  A reading of \<open>high_resolution_clock\<close> is a signed 64-bit count of ticks, taken as
  nanoseconds: a 64-bit word, read as a signed number by \<open>sint\<close>. The difference
  \<open>now - last\<close> is the 64-bit difference of the two counts; where the mathematical
  difference does not fit into 64 bits it wraps around (two's complement).
  \<open>duration_cast<milliseconds>\<close> divides the difference by a million, rounding toward
  zero.
\<close>

type_synonym ticks = "64 word"

definition to_millis :: "ticks \<Rightarrow> int" where
  "to_millis d =
     (if 0 \<le> sint d then sint d div 1000000 else - ((- sint d) div 1000000))"

text \<open>
  \<open>runtimeInfoSpam\<close>. The clock is read by the initialiser of the static \<open>last\<close> (only
  the first time control reaches it: the reading \<open>t_init\<close>) and then for \<open>now\<close> (the
  reading \<open>t_now\<close>); both readings are inputs of the model.
\<close>

definition runtimeInfoSpam :: "string \<Rightarrow> ticks \<Rightarrow> ticks \<Rightarrow> sys_state \<Rightarrow> sys_state" where
  "runtimeInfoSpam txt t_init t_now s =
     (if \<not> argSilent s then
        (let lst = (case spam_last s of None \<Rightarrow> t_init | Some l \<Rightarrow> l);
             s1 = s\<lparr>spam_last := Some lst\<rparr>
         in if to_millis (t_now - lst) > 200
            then runtimeInfo txt (s1\<lparr>spam_last := Some t_now\<rparr>)
            else s1)
      else s)"

definition error :: "string \<Rightarrow> sys_state \<Rightarrow> sys_state" where
  "error txt s =
     (let s1 = setConsoleColor 12 s;
          s2 = s1\<lparr>s_errors := fst (addMessage (s_errors s1) txt)\<rparr>;
          s3 = print_line (''ERROR: '' @ txt) s2;
          s4 = setConsoleColorDefault s3
      in if ''errpause'' \<in> set (args s4) then s4\<lparr>pauses := pauses s4 + 1\<rparr> else s4)"

text \<open>The decimal digits that \<open>operator<<\<close> writes for a \<open>size_t\<close>.\<close>

fun show_nat :: "nat \<Rightarrow> string" where
  "show_nat n =
     (if n < 10 then [''0123456789'' ! n]
      else show_nat (n div 10) @ [''0123456789'' ! (n mod 10)])"

declare show_nat.simps [simp del]

definition total_count :: "messages \<Rightarrow> 64 word" where
  "total_count vec = fold (\<lambda>e count. count + snd e) vec 0"

definition displayStrings :: "messages \<Rightarrow> string \<Rightarrow> string" where
  "displayStrings vec name =
     (if total_count vec \<noteq> 0 then
        name @ '' ('' @ show_nat (unat (total_count vec)) @ ''):'' @ [newline] @
        concat (map (\<lambda>e. ''('' @ show_nat (unat (snd e)) @ '') '' @ fst e @ [newline]) vec)
      else [])"

definition displayWarnings :: "sys_state \<Rightarrow> sys_state" where
  "displayWarnings s =
     (let s1 = setConsoleColor 14 s;
          s2 = s1\<lparr>cerr := cerr s1 @ displayStrings (s_warnings s1) ''WARNINGS''\<rparr>
      in setConsoleColorDefault s2)"

definition displayErrors :: "sys_state \<Rightarrow> sys_state" where
  "displayErrors s =
     (let s1 = setConsoleColor 12 s;
          s2 = s1\<lparr>cerr := cerr s1 @ displayStrings (s_errors s1) ''ERRORS''\<rparr>
      in setConsoleColorDefault s2)"

definition displayInfos :: "sys_state \<Rightarrow> sys_state" where
  "displayInfos s =
     (let s1 = setConsoleColor 10 s;
          s2 = s1\<lparr>cerr := cerr s1 @ displayStrings (s_infos s1) ''INFOS''\<rparr>
      in setConsoleColorDefault s2)"

section \<open>The output directory\<close>

text \<open>
  \<open>System::setOutputDirectory\<close>. Whether \<open>fopen\<close> can create the probe file is a fact
  of the file system: the predicate \<open>probe\<close> on file names is an input of the model. The
  \<open>throw\<close> is the left value of the result; the state beside it is the state the
  statics have when the exception leaves the function.
\<close>

definition setOutputDirectory ::
    "(string \<Rightarrow> bool) \<Rightarrow> string \<Rightarrow> sys_state \<Rightarrow> (error + unit) \<times> sys_state" where
  "setOutputDirectory probe dir s =
     (case getFileDirectory dir of
        None \<Rightarrow> (Inl OutOfRange, s)
      | Some d \<Rightarrow>
          (let s1 = s\<lparr>s_outDir := d\<rparr>
           in if probe (dir @ ''tmp'') then (Inr (), s1)
              else (Inl (RuntimeError ''unable to write to output directory''),
                    error (''cannot write in output directory '' @ dir) s1)))"

definition getOutputDirectory :: "sys_state \<Rightarrow> string" where
  "getOutputDirectory s = s_outDir s"

section \<open>The axis swap\<close>

text \<open>
  \<open>System::setAxisSwap\<close>, in a build that keeps its assertions: a failed \<open>assert\<close>
  aborts the process, which is the value \<open>Inl AssertionFailed\<close>.
\<close>

definition setAxisSwap :: "int \<Rightarrow> int \<Rightarrow> sys_state \<Rightarrow> error + sys_state" where
  "setAxisSwap a1 a2 s =
     (if \<not> (a1 \<ge> 0 \<and> a1 \<le> 2) then Inl AssertionFailed
      else if \<not> (a2 \<ge> 0 \<and> a2 \<le> 2) then Inl AssertionFailed
      else if \<not> (a1 \<noteq> a2) then Inl AssertionFailed
      else Inr (s\<lparr>s_axisSwap :=
                  mat_mul (s_axisSwap s) (swap_rows identity4x4 (nat a1) (nat a2))\<rparr>))"

definition getAxisSwap :: "sys_state \<Rightarrow> mat4" where
  "getAxisSwap s = s_axisSwap s"

definition hasAxisSwap :: "sys_state \<Rightarrow> bool" where
  "hasAxisSwap s = (s_axisSwap s \<noteq> identity4x4)"

text \<open>A sequence of calls of \<open>setAxisSwap\<close>; the first failed assertion ends it.\<close>

fun setAxisSwaps :: "(int \<times> int) list \<Rightarrow> sys_state \<Rightarrow> error + sys_state" where
  "setAxisSwaps [] s = Inr s"
| "setAxisSwaps ((a1, a2) # rest) s =
     (case setAxisSwap a1 a2 s of Inl e \<Rightarrow> Inl e | Inr s' \<Rightarrow> setAxisSwaps rest s')"

section \<open>Signed permutation matrices\<close>

text \<open>
  The properties of the cumulative transform that the data model names: every entry is 0,
  1 or -1, every row and every column has exactly one entry that is not zero, and the
  matrix times its transpose is the identity.
\<close>

definition unit_entry :: "int \<Rightarrow> bool" where
  "unit_entry x = (x = 0 \<or> x = 1 \<or> x = - 1)"

fun entries_ok :: "vec4 \<Rightarrow> bool" where
  "entries_ok (Vec4 a b c d) = (unit_entry a \<and> unit_entry b \<and> unit_entry c \<and> unit_entry d)"

definition nz :: "int \<Rightarrow> nat" where
  "nz x = (if x = 0 then 0 else 1)"

fun nonzeros :: "vec4 \<Rightarrow> nat" where
  "nonzeros (Vec4 a b c d) = nz a + nz b + nz c + nz d"

definition signed_permutation :: "mat4 \<Rightarrow> bool" where
  "signed_permutation m =
     list_all (\<lambda>i. entries_ok (mrow m i) \<and> nonzeros (mrow m i) = 1 \<and> nonzeros (mcol m i) = 1)
       [0, 1, 2, 3]"

definition orthogonal :: "mat4 \<Rightarrow> bool" where
  "orthogonal m = (mat_mul m (mtranspose m) = identity4x4)"

text \<open>
  The vector \<open>v\<close> with its entries at the positions \<open>i\<close> and \<open>j\<close> (both below 3)
  exchanged: what a row becomes when it is multiplied by the identity with the rows
  \<open>i\<close> and \<open>j\<close> swapped.
\<close>

fun vswap :: "vec4 \<Rightarrow> nat \<Rightarrow> nat \<Rightarrow> vec4" where
  "vswap v i j =
     Vec4 (el v (if i = 0 then j else if j = 0 then i else 0))
          (el v (if i = 1 then j else if j = 1 then i else 1))
          (el v (if i = 2 then j else if j = 2 then i else 2))
          (el v 3)"

text \<open>The arguments that pass the three assertions of \<open>setAxisSwap\<close>.\<close>

definition valid_swap :: "int \<times> int \<Rightarrow> bool" where
  "valid_swap p = (case p of (a1, a2) \<Rightarrow> 0 \<le> a1 \<and> a1 \<le> 2 \<and> 0 \<le> a2 \<and> a2 \<le> 2 \<and> a1 \<noteq> a2)"

section \<open>Properties of the path utilities\<close>

lemma find_last_of_None: "(find_last_of s ch = None) = (ch \<notin> set s)"
  by (induction s) (auto split: option.splits)

lemma find_last_of_last: "ch \<notin> set Y \<Longrightarrow> find_last_of (X @ ch # Y) ch = Some (length X)"
proof (induction X)
  case Nil
  then show ?case by (simp add: find_last_of_None [THEN iffD2])
next
  case (Cons x X)
  then show ?case by simp
qed

lemma substr_prefix: "substr (X @ Y) 0 (length X) = Some X"
  by (simp add: substr_def)

text \<open>
  C10: \<open>removeFileEnding\<close> cuts at the last dot of the whole string, whatever follows
  it. When no dot follows in \<open>Y\<close>, the input \<open>X.Y\<close> becomes \<open>X\<close>, also when
  \<open>Y\<close> contains a backslash: then the result is a proper prefix of the directory part
  that \<open>getFileDirectory\<close> returns for the same input. A string without a dot comes back
  unchanged, and the input dir.v2, backslash, file becomes dir.
\<close>

theorem removeFileEnding_last_dot:
  "(dot \<notin> set Y \<longrightarrow> removeFileEnding (X @ dot # Y) = Some X)
   \<and> (dot \<notin> set Y \<and> bslash \<in> set Y \<longrightarrow>
        (\<exists>d. getFileDirectory (X @ dot # Y) = Some d \<and> length X < length d
             \<and> take (length X) d = X))
   \<and> (dot \<notin> set s \<longrightarrow> removeFileEnding s = Some s)
   \<and> removeFileEnding (''dir.v2'' @ [bslash] @ ''file'') = Some ''dir''"
proof (intro conjI impI)
  assume "dot \<notin> set Y"
  then show "removeFileEnding (X @ dot # Y) = Some X"
    by (simp add: removeFileEnding_def find_last_of_last substr_prefix)
next
  assume a: "dot \<notin> set Y \<and> bslash \<in> set Y"
  then obtain U V where Y: "Y = U @ bslash # V" and V: "bslash \<notin> set V"
    by (meson split_list_last)
  have "X @ dot # Y = (X @ dot # U) @ bslash # V"
    by (simp add: Y)
  then have "find_last_of (X @ dot # Y) bslash = Some (length (X @ dot # U))"
    using find_last_of_last [OF V] by metis
  then have "getFileDirectory (X @ dot # Y) = Some (X @ dot # U @ [bslash])"
    by (simp add: getFileDirectory_def substr_def Y)
  then show "\<exists>d. getFileDirectory (X @ dot # Y) = Some d \<and> length X < length d
      \<and> take (length X) d = X"
    by simp
next
  assume "dot \<notin> set s"
  then show "removeFileEnding s = Some s"
    by (simp add: removeFileEnding_def find_last_of_None [THEN iffD2])
next
  show "removeFileEnding (''dir.v2'' @ [bslash] @ ''file'') = Some ''dir''"
    by (simp add: removeFileEnding_def substr_def)
qed

theorem removeFileEnding_last_dot_witness:
  "dot \<notin> set (''v2'' @ [bslash] @ ''file'') \<and> bslash \<in> set (''v2'' @ [bslash] @ ''file'')
   \<and> dot \<notin> set ''noext''
   \<and> removeFileEnding (''dir'' @ dot # (''v2'' @ [bslash] @ ''file'')) = Some ''dir''
   \<and> (\<exists>d. getFileDirectory (''dir'' @ dot # (''v2'' @ [bslash] @ ''file'')) = Some d
          \<and> length ''dir'' < length d \<and> take (length ''dir'') d = ''dir'')
   \<and> removeFileEnding ''noext'' = Some ''noext''"
  using removeFileEnding_last_dot [of "''v2'' @ [bslash] @ ''file''" "''dir''" "''noext''"]
  by simp

text \<open>
  C3, as stated, fails: for the input noslash, which has neither separator,
  \<open>getFileDirectory\<close> returns the input itself and not the empty string.
\<close>

theorem getFileDirectory_no_separator_counterexample:
  "bslash \<notin> set ''noslash'' \<and> fslash \<notin> set ''noslash''
   \<and> getFileDirectory ''noslash'' = Some ''noslash''
   \<and> getFileDirectory ''noslash'' \<noteq> Some []"
  by (simp add: getFileDirectory_def)

text \<open>
  C3, amended: \<open>getFileDirectory\<close> returns the prefix up to and including the last
  backslash when the input has a backslash; otherwise the prefix up to and including the
  last forward slash when it has one; and the input unchanged when it has neither.
\<close>

theorem getFileDirectory_prefix:
  "(bslash \<notin> set Y \<longrightarrow> getFileDirectory (X @ bslash # Y) = Some (X @ [bslash]))
   \<and> (bslash \<notin> set X \<and> bslash \<notin> set Y \<and> fslash \<notin> set Y \<longrightarrow>
        getFileDirectory (X @ fslash # Y) = Some (X @ [fslash]))
   \<and> (bslash \<notin> set s \<and> fslash \<notin> set s \<longrightarrow> getFileDirectory s = Some s)"
proof (intro conjI impI)
  assume "bslash \<notin> set Y"
  then show "getFileDirectory (X @ bslash # Y) = Some (X @ [bslash])"
    by (simp add: getFileDirectory_def find_last_of_last substr_def)
next
  assume a: "bslash \<notin> set X \<and> bslash \<notin> set Y \<and> fslash \<notin> set Y"
  then have "find_last_of (X @ fslash # Y) bslash = None"
    by (simp add: find_last_of_None)
  with a show "getFileDirectory (X @ fslash # Y) = Some (X @ [fslash])"
    by (simp add: getFileDirectory_def find_last_of_last substr_def)
next
  assume "bslash \<notin> set s \<and> fslash \<notin> set s"
  then show "getFileDirectory s = Some s"
    by (simp add: getFileDirectory_def find_last_of_None [THEN iffD2])
qed

theorem getFileDirectory_prefix_witness:
  "bslash \<notin> set ''c.txt'' \<and> fslash \<notin> set ''c.txt'' \<and> bslash \<notin> set ''a/b''
   \<and> bslash \<notin> set ''noslash'' \<and> fslash \<notin> set ''noslash''
   \<and> getFileDirectory ((''a'' @ [bslash] @ ''b'') @ bslash # ''c.txt'') = Some ((''a'' @ [bslash] @ ''b'') @ [bslash])
   \<and> getFileDirectory (''a/b'' @ fslash # ''c.txt'') = Some ''a/b/''
   \<and> getFileDirectory ''noslash'' = Some ''noslash''"
  using getFileDirectory_prefix [of "''c.txt''" "''a'' @ [bslash] @ ''b''" "''noslash''"]
    getFileDirectory_prefix [of "''c.txt''" "''a/b''" "''noslash''"]
  by simp

section \<open>Properties of the diagnostics log and the output directory\<close>

lemma addMessage_new:
  "msg \<notin> fst ` set vec \<Longrightarrow> addMessage vec msg = (vec @ [(msg, 1)], True)"
  by (induction vec) auto

lemma addMessage_last:
  "msg \<notin> fst ` set vec \<Longrightarrow>
   addMessage (vec @ [(msg, c)]) msg = (vec @ [(msg, c + 1)], c + 1 < 10)"
  by (induction vec) auto

lemma warning_fields:
  "argSilent (warning msg s) = argSilent s
   \<and> s_warnings (warning msg s) = fst (addMessage (s_warnings s) msg)
   \<and> cerr (warning msg s) =
       cerr s @ (if snd (addMessage (s_warnings s) msg) \<and> \<not> argSilent s
                 then ''WARNING: '' @ msg @ [newline] else [])"
  by (simp add: warning_def setConsoleColor_def setConsoleColorDefault_def print_line_def
      Let_def split: prod.splits)

lemma error_fields:
  "argSilent (error msg s) = argSilent s
   \<and> s_errors (error msg s) = fst (addMessage (s_errors s) msg)
   \<and> cerr (error msg s) = cerr s @ ''ERROR: '' @ msg @ [newline]"
  by (simp add: error_def setConsoleColor_def setConsoleColorDefault_def print_line_def
      Let_def split: prod.splits)

lemma count_less_10: "n < 2 ^ 64 \<Longrightarrow> ((of_nat n :: 64 word) < 10) = (n < 10)"
  by (simp add: word_less_nat_alt unat_of_nat)
  
lemma concat_replicate_snoc:
  "concat (replicate n x) @ x = concat (replicate (Suc n) x)"
  by (induction n) auto

lemma warning_repeat:
  assumes "\<not> argSilent s" and "msg \<notin> fst ` set (s_warnings s)"
  shows "Suc n < 2 ^ 64 \<Longrightarrow>
    argSilent ((warning msg ^^ Suc n) s) = argSilent s
    \<and> s_warnings ((warning msg ^^ Suc n) s) = s_warnings s @ [(msg, of_nat (Suc n))]
    \<and> cerr ((warning msg ^^ Suc n) s) =
        cerr s @ concat (replicate (min (Suc n) 9) (''WARNING: '' @ msg @ [newline]))"
proof (induction n)
  case 0
  show ?case using assms by (simp add: warning_fields addMessage_new)
next
  case (Suc n)
  then have IH: "argSilent ((warning msg ^^ Suc n) s) = argSilent s"
    "s_warnings ((warning msg ^^ Suc n) s) = s_warnings s @ [(msg, of_nat (Suc n))]"
    "cerr ((warning msg ^^ Suc n) s) =
        cerr s @ concat (replicate (min (Suc n) 9) (''WARNING: '' @ msg @ [newline]))"
    by simp_all
  have inc: "(of_nat (Suc n) + 1 :: 64 word) = of_nat (Suc (Suc n))"
    by simp
  then have lt: "((of_nat (Suc n) + 1 :: 64 word) < 10) = (Suc (Suc n) < 10)"
    using count_less_10 [of "Suc (Suc n)"] Suc.prems by metis
  define line where "line = ''WARNING: '' @ msg @ [newline]"
  have step: "cerr ((warning msg ^^ Suc (Suc n)) s) =
      cerr s @ concat (replicate (min (Suc n) 9) line) @ (if Suc (Suc n) < 10 then line else [])"
    unfolding funpow.simps(2) [of "Suc n"] o_apply line_def
    using assms(1)
    by (simp only: warning_fields IH addMessage_last [OF assms(2)] fst_conv snd_conv lt
        append_assoc if_True if_False simp_thms)
  have "concat (replicate (min (Suc n) 9) line) @ (if Suc (Suc n) < 10 then line else []) =
      concat (replicate (min (Suc (Suc n)) 9) line)"
  proof (cases "Suc (Suc n) < 10")
    case True
    then have "min (Suc (Suc n)) 9 = Suc (min (Suc n) 9)" by simp
    with True show ?thesis
      by (simp only: concat_replicate_snoc if_True)
  next
    case False
    then show ?thesis by (simp add: min_def)
  qed
  with step have c: "cerr ((warning msg ^^ Suc (Suc n)) s) =
      cerr s @ concat (replicate (min (Suc (Suc n)) 9) line)"
    by simp
  have w: "s_warnings ((warning msg ^^ Suc (Suc n)) s) =
      s_warnings s @ [(msg, of_nat (Suc (Suc n)))]"
    unfolding funpow.simps(2) [of "Suc n"] o_apply
    by (simp only: warning_fields IH addMessage_last [OF assms(2)] fst_conv inc)
  have a: "argSilent ((warning msg ^^ Suc (Suc n)) s) = argSilent s"
    unfolding funpow.simps(2) [of "Suc n"] o_apply
    by (simp only: warning_fields IH)
  from a w c show ?case
    unfolding line_def by blast
qed


lemma error_repeat:
  "argSilent ((error msg ^^ n) s) = argSilent s
   \<and> cerr ((error msg ^^ n) s) = cerr s @ concat (replicate n (''ERROR: '' @ msg @ [newline]))"
proof (induction n)
  case 0
  show ?case by simp
next
  case (Suc n)
  then have IH: "cerr ((error msg ^^ n) s) =
      cerr s @ concat (replicate n (''ERROR: '' @ msg @ [newline]))"
    by simp
  show ?case
    unfolding funpow.simps(2) o_apply
    by (simp only: error_fields IH Suc append_assoc concat_replicate_snoc simp_thms)
qed

lemma error_repeat_count:
  assumes "msg \<notin> fst ` set (s_errors s)"
  shows "s_errors ((error msg ^^ Suc n) s) = s_errors s @ [(msg, of_nat (Suc n))]"
proof (induction n)
  case 0
  show ?case using assms by (simp add: error_fields addMessage_new)
next
  case (Suc n)
  have inc: "(of_nat (Suc n) + 1 :: 64 word) = of_nat (Suc (Suc n))"
    by simp
  show ?case
    unfolding funpow.simps(2) [of "Suc n"] o_apply
    by (simp only: error_fields Suc addMessage_last [OF assms] fst_conv inc)
qed

lemma total_count_snoc: "total_count (vec @ [e]) = total_count vec + snd e"
  by (simp add: total_count_def)

lemma displayStrings_snoc:
  "total_count (vec @ [(msg, c)]) \<noteq> 0 \<Longrightarrow>
   displayStrings (vec @ [(msg, c)]) name =
     name @ '' ('' @ show_nat (unat (total_count (vec @ [(msg, c)]))) @ ''):'' @ [newline] @
     concat (map (\<lambda>e. ''('' @ show_nat (unat (snd e)) @ '') '' @ fst e @ [newline]) vec) @
     ''('' @ show_nat (unat c) @ '') '' @ msg @ [newline]"
  by (simp add: displayStrings_def)

lemma show_nat_12: "show_nat 12 = ''12''"
  by (simp add: show_nat.simps)

lemma show_nat_100: "show_nat 100 = ''100''"
  by (simp add: show_nat.simps)

lemma displayWarnings_cerr:
  "cerr (displayWarnings s) = cerr s @ displayStrings (s_warnings s) ''WARNINGS''"
  by (simp add: displayWarnings_def setConsoleColor_def setConsoleColorDefault_def Let_def)

lemma displayErrors_cerr:
  "cerr (displayErrors s) = cerr s @ displayStrings (s_errors s) ''ERRORS''"
  by (simp add: displayErrors_def setConsoleColor_def setConsoleColorDefault_def Let_def)

text \<open>
  C1: with the silent flag unset and a text that is not yet among the warnings,
  twelve calls of \<open>warning\<close> with that text write the line WARNING: text exactly nine
  times to the error stream (after the call number n + 1, for n below 12, the stream holds
  min (n + 1) 9 lines: the calls 1 to 9 print, the later ones do not), the stored count of
  the text is 12, and \<open>displayWarnings\<close> writes the summary line (12) text: after the
  header and the lines of the earlier warnings when the total count is not zero, and
  exactly WARNINGS (12): and (12) text when this is the only warning.
\<close>

theorem warning_twelve_times:
  assumes "\<not> argSilent s" and "msg \<notin> fst ` set (s_warnings s)"
  shows "cerr ((warning msg ^^ 12) s) =
           cerr s @ concat (replicate 9 (''WARNING: '' @ msg @ [newline]))
       \<and> s_warnings ((warning msg ^^ 12) s) = s_warnings s @ [(msg, 12)]
       \<and> (n < 12 \<longrightarrow> cerr ((warning msg ^^ Suc n) s) =
            cerr s @ concat (replicate (min (Suc n) 9) (''WARNING: '' @ msg @ [newline])))
       \<and> (total_count (s_warnings ((warning msg ^^ 12) s)) \<noteq> 0 \<longrightarrow>
            (\<exists>pre. cerr (displayWarnings ((warning msg ^^ 12) s)) =
               cerr ((warning msg ^^ 12) s) @ pre @ ''(12) '' @ msg @ [newline]))
       \<and> (s_warnings s = [] \<longrightarrow>
            cerr (displayWarnings ((warning msg ^^ 12) s)) =
              cerr ((warning msg ^^ 12) s) @ ''WARNINGS (12):'' @ [newline] @
              ''(12) '' @ msg @ [newline])"
proof -
  have twelve: "(12::nat) = Suc 11" by simp
  have r: "argSilent ((warning msg ^^ 12) s) = argSilent s
    \<and> s_warnings ((warning msg ^^ 12) s) = s_warnings s @ [(msg, of_nat (Suc 11))]
    \<and> cerr ((warning msg ^^ 12) s) =
        cerr s @ concat (replicate (min (Suc 11) 9) (''WARNING: '' @ msg @ [newline]))"
    unfolding twelve by (rule warning_repeat [OF assms]) simp
  have c: "cerr ((warning msg ^^ 12) s) =
      cerr s @ concat (replicate 9 (''WARNING: '' @ msg @ [newline]))"
    using r by simp
  have w: "s_warnings ((warning msg ^^ 12) s) = s_warnings s @ [(msg, 12)]"
    using r by simp
  have k: "n < 12 \<longrightarrow> cerr ((warning msg ^^ Suc n) s) =
      cerr s @ concat (replicate (min (Suc n) 9) (''WARNING: '' @ msg @ [newline]))"
  proof
    assume "n < 12"
    then have "Suc n < 2 ^ 64" by simp
    from warning_repeat [OF assms this] show "cerr ((warning msg ^^ Suc n) s) =
      cerr s @ concat (replicate (min (Suc n) 9) (''WARNING: '' @ msg @ [newline]))"
      by blast
  qed
  have d: "total_count (s_warnings ((warning msg ^^ 12) s)) \<noteq> 0 \<longrightarrow>
      (\<exists>pre. cerr (displayWarnings ((warning msg ^^ 12) s)) =
         cerr ((warning msg ^^ 12) s) @ pre @ ''(12) '' @ msg @ [newline])"
  proof
    assume "total_count (s_warnings ((warning msg ^^ 12) s)) \<noteq> 0"
    then have "total_count (s_warnings s @ [(msg, 12)]) \<noteq> 0"
      unfolding w .
    then have "cerr (displayWarnings ((warning msg ^^ 12) s)) =
         cerr ((warning msg ^^ 12) s) @
         (''WARNINGS ('' @ show_nat (unat (total_count (s_warnings s @ [(msg, 12)]))) @
          ''):'' @ [newline] @
          concat (map (\<lambda>e. ''('' @ show_nat (unat (snd e)) @ '') '' @ fst e @ [newline])
            (s_warnings s))) @ ''(12) '' @ msg @ [newline]"
      by (simp add: displayWarnings_cerr w displayStrings_snoc show_nat_12)
    then show "\<exists>pre. cerr (displayWarnings ((warning msg ^^ 12) s)) =
         cerr ((warning msg ^^ 12) s) @ pre @ ''(12) '' @ msg @ [newline]"
      by blast
  qed
  have e: "s_warnings s = [] \<longrightarrow>
      cerr (displayWarnings ((warning msg ^^ 12) s)) =
        cerr ((warning msg ^^ 12) s) @ ''WARNINGS (12):'' @ [newline] @
        ''(12) '' @ msg @ [newline]"
  proof
    assume "s_warnings s = []"
    then have "s_warnings ((warning msg ^^ 12) s) = [(msg, 12)]"
      using w by simp
    then show "cerr (displayWarnings ((warning msg ^^ 12) s)) =
        cerr ((warning msg ^^ 12) s) @ ''WARNINGS (12):'' @ [newline] @
        ''(12) '' @ msg @ [newline]"
      by (simp add: displayWarnings_cerr displayStrings_def total_count_def show_nat_12)
  qed
  from c w k d e show ?thesis by blast
qed

theorem warning_twelve_times_witness:
  "\<not> argSilent (init_state False [] False)
   \<and> ''w'' \<notin> fst ` set (s_warnings (init_state False [] False))
   \<and> (11::nat) < 12
   \<and> s_warnings (init_state False [] False) = []
   \<and> total_count (s_warnings ((warning ''w'' ^^ 12) (init_state False [] False))) \<noteq> 0
   \<and> cerr ((warning ''w'' ^^ 12) (init_state False [] False)) =
        concat (replicate 9 (''WARNING: w'' @ [newline]))
   \<and> s_warnings ((warning ''w'' ^^ 12) (init_state False [] False)) = [(''w'', 12)]
   \<and> cerr (displayWarnings ((warning ''w'' ^^ 12) (init_state False [] False))) =
        concat (replicate 9 (''WARNING: w'' @ [newline])) @
        ''WARNINGS (12):'' @ [newline] @ ''(12) w'' @ [newline]"
proof -
  have a: "\<not> argSilent (init_state False [] False)"
    and b: "''w'' \<notin> fst ` set (s_warnings (init_state False [] False))"
    and c: "s_warnings (init_state False [] False) = []"
    and d: "cerr (init_state False [] False) = []"
    by (simp_all add: init_state_def)
  from warning_twelve_times [OF a b, of 11] c d show ?thesis
    using a b by (simp add: total_count_def)
qed


text \<open>
  C5: every call of \<open>error\<close> appends the line ERROR: text to the error stream,
  whatever the silent flag and the messages recorded before; n calls append n lines. When
  the text was not recorded before, 100 calls leave its count at 100, and from an empty
  error list \<open>displayErrors\<close> then writes ERRORS (100): and (100) text.
\<close>

theorem error_always_displayed:
  "cerr (error msg s) = cerr s @ ''ERROR: '' @ msg @ [newline]
   \<and> cerr ((error msg ^^ n) s) = cerr s @ concat (replicate n (''ERROR: '' @ msg @ [newline]))
   \<and> (msg \<notin> fst ` set (s_errors s) \<longrightarrow>
        s_errors ((error msg ^^ 100) s) = s_errors s @ [(msg, 100)])
   \<and> (s_errors s = [] \<longrightarrow>
        cerr (displayErrors ((error msg ^^ 100) s)) =
          cerr ((error msg ^^ 100) s) @ ''ERRORS (100):'' @ [newline] @
          ''(100) '' @ msg @ [newline])"
proof -
  have hundred: "(100::nat) = Suc 99" by simp
  have w: "s_errors ((error msg ^^ 100) s) = s_errors s @ [(msg, 100)]"
    if "msg \<notin> fst ` set (s_errors s)"
    unfolding hundred using error_repeat_count [OF that, of 99] by simp
  have e: "cerr (displayErrors ((error msg ^^ 100) s)) =
          cerr ((error msg ^^ 100) s) @ ''ERRORS (100):'' @ [newline] @
          ''(100) '' @ msg @ [newline]" if "s_errors s = []"
  proof -
    have "s_errors ((error msg ^^ 100) s) = [(msg, 100)]"
      using w that by simp
    then show ?thesis
      by (simp add: displayErrors_cerr displayStrings_def total_count_def show_nat_100)
  qed
  from w e error_fields [where msg = msg and s = s] error_repeat [where msg = msg and n = n and s = s] show ?thesis
    by blast
qed

theorem error_always_displayed_witness:
  "argSilent (init_state True [] False)
   \<and> ''e'' \<notin> fst ` set (s_errors (init_state True [] False))
   \<and> s_errors (init_state True [] False) = []
   \<and> cerr ((error ''e'' ^^ 100) (init_state True [] False)) =
        concat (replicate 100 (''ERROR: e'' @ [newline]))
   \<and> s_errors ((error ''e'' ^^ 100) (init_state True [] False)) = [(''e'', 100)]
   \<and> cerr (displayErrors ((error ''e'' ^^ 100) (init_state True [] False))) =
        concat (replicate 100 (''ERROR: e'' @ [newline])) @
        ''ERRORS (100):'' @ [newline] @ ''(100) e'' @ [newline]"
proof -
  have a: "argSilent (init_state True [] False)"
    and b: "''e'' \<notin> fst ` set (s_errors (init_state True [] False))"
    and c: "s_errors (init_state True [] False) = []"
    and d: "cerr (init_state True [] False) = []"
    by (simp_all add: init_state_def)
  from error_always_displayed [of "''e''" "init_state True [] False" 100] a b c d
  show ?thesis
    by simp
qed

lemma find_last_of_less: "find_last_of s ch = Some p \<Longrightarrow> p < length s"
  by (induction s arbitrary: p) (auto split: option.splits if_splits)

lemma getFileDirectory_total: "\<exists>d. getFileDirectory s = Some d"
  by (auto simp: getFileDirectory_def substr_def split: option.splits)

text \<open>
  C2: when the probe file cannot be created, \<open>setOutputDirectory\<close> throws the
  runtime error, has recorded and printed the error message, and the stored output
  directory is the directory of the failing argument: the assignment precedes the check.
\<close>

theorem setOutputDirectory_not_atomic:
  assumes "\<not> probe (p @ ''tmp'')"
  shows "\<exists>d s'. setOutputDirectory probe p s =
            (Inl (RuntimeError ''unable to write to output directory''), s')
         \<and> getFileDirectory p = Some d
         \<and> getOutputDirectory s' = d
         \<and> cerr s' = cerr s @ ''ERROR: cannot write in output directory '' @ p @ [newline]
         \<and> s_errors s' =
             fst (addMessage (s_errors s) (''cannot write in output directory '' @ p))"
proof -
  obtain d where d: "getFileDirectory p = Some d"
    using getFileDirectory_total by blast
  have o: "s_outDir (error m t) = s_outDir t" for m t
    by (simp add: error_def setConsoleColor_def setConsoleColorDefault_def print_line_def
        Let_def)
  show ?thesis
    using assms d
    by (simp add: setOutputDirectory_def getOutputDirectory_def Let_def error_fields o)
qed

theorem setOutputDirectory_not_atomic_witness:
  "\<not> (\<lambda>f. False) ((''out'' @ [bslash]) @ ''tmp'')
   \<and> getOutputDirectory (init_state False [] False) = []
   \<and> fst (setOutputDirectory (\<lambda>f. False) (''out'' @ [bslash]) (init_state False [] False)) =
        Inl (RuntimeError ''unable to write to output directory'')
   \<and> getOutputDirectory
        (snd (setOutputDirectory (\<lambda>f. False) (''out'' @ [bslash]) (init_state False [] False)))
        = ''out'' @ [bslash]
   \<and> getOutputDirectory
        (snd (setOutputDirectory (\<lambda>f. False) (''out'' @ [bslash]) (init_state False [] False)))
        \<noteq> getOutputDirectory (init_state False [] False)"
proof -
  have g: "getFileDirectory (''out'' @ [bslash]) = Some (''out'' @ [bslash])"
    by (simp add: getFileDirectory_def substr_def)
  have i: "getOutputDirectory (init_state False [] False) = []"
    by (simp add: init_state_def getOutputDirectory_def)
  from setOutputDirectory_not_atomic
    [of "\<lambda>f. False" "''out'' @ [bslash]" "init_state False [] False"] g i
  show ?thesis
    by auto
qed

lemma sint_diff:
  fixes a b :: ticks
  assumes "sint b \<le> sint a" and "sint a - sint b < 2 ^ 63"
  shows "sint (a - b) = sint a - sint b"
proof -
  have "sint (a - b) = signed_take_bit (LENGTH(64) - 1) (sint a - sint b)"
    by (rule sint_word_ariths)
  moreover have "signed_take_bit (LENGTH(64) - 1) (sint a - sint b) = sint a - sint b"
    using assms by (intro signed_take_bit_int_eq_self) simp_all
  ultimately show ?thesis by simp
qed

lemma to_millis_elapsed:
  fixes a b :: ticks
  assumes "sint b \<le> sint a" and "sint a - sint b < 2 ^ 63"
  shows "(200 < to_millis (a - b)) = (201000000 \<le> sint a - sint b)"
proof -
  have "0 \<le> sint a - sint b"
    using assms(1) by simp
  then show ?thesis
    unfolding to_millis_def sint_diff [OF assms] by simp linarith
qed

text \<open>
  C4, as stated, fails: in the first call of \<open>runtimeInfoSpam\<close> of a process, with
  the silent flag unset, nothing is displayed when the two clock readings of that call
  coincide (at 0), or are a microsecond apart (at five seconds).
\<close>

theorem runtimeInfoSpam_first_call_counterexample:
  "spam_last (init_state False [] False) = None
   \<and> \<not> argSilent (init_state False [] False)
   \<and> cerr (runtimeInfoSpam ''x'' 0 0 (init_state False [] False)) =
       cerr (init_state False [] False)
   \<and> cerr (runtimeInfoSpam ''x'' 5000000000 5000001000 (init_state False [] False)) = []"
  by (simp add: runtimeInfoSpam_def init_state_def to_millis_def)

text \<open>
  A difference that does not fit into 64 bits wraps around: nine seconds times 10^9 after
  a stored reading of minus that much, the wrapped difference is negative and nothing is
  displayed.
\<close>

lemma runtimeInfoSpam_wrapped_difference:
  "cerr (runtimeInfoSpam ''x'' 0 9000000000000000000
     ((init_state False [] False)\<lparr>spam_last := Some (- 9000000000000000000)\<rparr>)) = []"
  by (simp add: runtimeInfoSpam_def init_state_def to_millis_def)

text \<open>
  C4, amended: with the silent flag unset, the first call of \<open>runtimeInfoSpam\<close>
  sets the timer to the reading \<open>t_init\<close> taken by that call and displays the message
  if and only if the whole number of milliseconds (rounded toward zero) in the 64-bit
  difference between the next reading \<open>t_now\<close> of the same call and the timer exceeds
  200; a later call displays if and only if that number, taken from the stored time,
  exceeds 200; and a call that displays stores its reading. When the later reading is not
  before the earlier one and their difference fits into 64 bits, the number exceeds 200
  exactly when at least 201 milliseconds (201000000 ticks) have passed.
\<close>

theorem runtimeInfoSpam_first_call:
  assumes "\<not> argSilent s"
  shows "(spam_last s = None \<longrightarrow>
            cerr (runtimeInfoSpam msg t_init t_now s) =
              cerr s @ (if 200 < to_millis (t_now - t_init)
                        then ''INFO: '' @ msg @ [newline] else [])
          \<and> spam_last (runtimeInfoSpam msg t_init t_now s) =
              Some (if 200 < to_millis (t_now - t_init) then t_now else t_init))
       \<and> (spam_last s = Some l \<longrightarrow>
            cerr (runtimeInfoSpam msg t_init t_now s) =
              cerr s @ (if 200 < to_millis (t_now - l)
                        then ''INFO: '' @ msg @ [newline] else [])
          \<and> spam_last (runtimeInfoSpam msg t_init t_now s) =
              Some (if 200 < to_millis (t_now - l) then t_now else l))
       \<and> (sint t_init \<le> sint t_now \<and> sint t_now - sint t_init < 2 ^ 63 \<longrightarrow>
            (200 < to_millis (t_now - t_init)) = (201000000 \<le> sint t_now - sint t_init))
       \<and> (sint l \<le> sint t_now \<and> sint t_now - sint l < 2 ^ 63 \<longrightarrow>
            (200 < to_millis (t_now - l)) = (201000000 \<le> sint t_now - sint l))"
proof -
  have "(spam_last s = None \<longrightarrow>
            cerr (runtimeInfoSpam msg t_init t_now s) =
              cerr s @ (if 200 < to_millis (t_now - t_init)
                        then ''INFO: '' @ msg @ [newline] else [])
          \<and> spam_last (runtimeInfoSpam msg t_init t_now s) =
              Some (if 200 < to_millis (t_now - t_init) then t_now else t_init))
       \<and> (spam_last s = Some l \<longrightarrow>
            cerr (runtimeInfoSpam msg t_init t_now s) =
              cerr s @ (if 200 < to_millis (t_now - l)
                        then ''INFO: '' @ msg @ [newline] else [])
          \<and> spam_last (runtimeInfoSpam msg t_init t_now s) =
              Some (if 200 < to_millis (t_now - l) then t_now else l))"
    using assms
    by (simp add: runtimeInfoSpam_def runtimeInfo_def print_line_def Let_def)
  then show ?thesis
    using to_millis_elapsed [of t_init t_now] to_millis_elapsed [of l t_now]
    by blast
qed

theorem runtimeInfoSpam_first_call_witness:
  "\<not> argSilent (init_state False [] False)
   \<and> spam_last (init_state False [] False) = None
   \<and> sint (7 :: ticks) \<le> sint (7 :: ticks)
   \<and> sint (7 :: ticks) - sint (7 :: ticks) < 2 ^ 63
   \<and> sint (7 :: ticks) \<le> sint (200500007 :: ticks)
   \<and> sint (200500007 :: ticks) - sint (7 :: ticks) < 2 ^ 63
   \<and> sint (7 :: ticks) \<le> sint (201000007 :: ticks)
   \<and> sint (201000007 :: ticks) - sint (7 :: ticks) < 2 ^ 63
   \<and> cerr (runtimeInfoSpam ''x'' 7 7 (init_state False [] False)) = []
   \<and> spam_last (runtimeInfoSpam ''x'' 7 7 (init_state False [] False)) = Some 7
   \<and> cerr (runtimeInfoSpam ''y'' 200500007 200500007
        (runtimeInfoSpam ''x'' 7 7 (init_state False [] False))) = []
   \<and> cerr (runtimeInfoSpam ''z'' 201000007 201000007
        (runtimeInfoSpam ''x'' 7 7 (init_state False [] False))) = ''INFO: z'' @ [newline]"
proof -
  define s0 where "s0 = init_state False [] False"
  define s1 where "s1 = runtimeInfoSpam ''x'' 7 7 s0"
  have a: "\<not> argSilent s0" and b: "spam_last s0 = None" and c: "cerr s0 = []"
    by (simp_all add: s0_def init_state_def)
  have r: "sint (7 :: ticks) \<le> sint (7 :: ticks)"
    "sint (7 :: ticks) - sint (7 :: ticks) < 2 ^ 63"
    "sint (7 :: ticks) \<le> sint (200500007 :: ticks)"
    "sint (200500007 :: ticks) - sint (7 :: ticks) < 2 ^ 63"
    "sint (7 :: ticks) \<le> sint (201000007 :: ticks)"
    "sint (201000007 :: ticks) - sint (7 :: ticks) < 2 ^ 63"
    by simp_all
  from runtimeInfoSpam_first_call [OF a, where t_init = 7 and t_now = 7 and l = 7
      and msg = "''x''"] b c r(1,2)
  have f: "cerr s1 = [] \<and> spam_last s1 = Some 7"
    by (simp add: s1_def)
  have a': "\<not> argSilent s1"
    using a by (simp add: s1_def runtimeInfoSpam_def runtimeInfo_def print_line_def Let_def)
  from runtimeInfoSpam_first_call [OF a', where l = 7 and t_init = 200500007
      and t_now = 200500007 and msg = "''y''"] f r(3,4)
  have g: "cerr (runtimeInfoSpam ''y'' 200500007 200500007 s1) = []"
    by simp
  from runtimeInfoSpam_first_call [OF a', where l = 7 and t_init = 201000007
      and t_now = 201000007 and msg = "''z''"] f r(5,6)
  have h: "cerr (runtimeInfoSpam ''z'' 201000007 201000007 s1) = ''INFO: z'' @ [newline]"
    by simp
  from a b r f g h show ?thesis
    unfolding s1_def s0_def by blast
qed

section \<open>Properties of the axis swap\<close>

lemma row_times_swap:
  assumes "i \<le> 2" "j \<le> 2" "i \<noteq> j"
  shows "row_times v (swap_rows identity4x4 i j) = vswap v i j"
proof -
  from assms have "(i = 0 \<or> i = 1 \<or> i = 2) \<and> (j = 0 \<or> j = 1 \<or> j = 2)"
    by auto
  with assms(3) show ?thesis
    by (cases v) (auto simp: row_times_def swap_rows_def identity4x4_def mcol_def)
qed

lemma mat_mul_swap:
  assumes "i \<le> 2" "j \<le> 2" "i \<noteq> j"
  shows "mat_mul (Mat4 r0 r1 r2 r3) (swap_rows identity4x4 i j) =
     Mat4 (vswap r0 i j) (vswap r1 i j) (vswap r2 i j) (vswap r3 i j)"
  by (simp only: mat_mul.simps row_times_swap [OF assms])

lemma signed_permutation_swap:
  assumes "i \<le> 2" "j \<le> 2" "i \<noteq> j"
    and "signed_permutation (Mat4 r0 r1 r2 r3)"
  shows "signed_permutation (Mat4 (vswap r0 i j) (vswap r1 i j) (vswap r2 i j) (vswap r3 i j))"
proof -
  from assms have ij: "(i = 0 \<or> i = 1 \<or> i = 2) \<and> (j = 0 \<or> j = 1 \<or> j = 2)"
    by auto
  show ?thesis
    using assms(4) ij
    by (cases r0; cases r1; cases r2; cases r3)
      (auto simp: signed_permutation_def mcol_def)
qed

lemma orthogonal_swap:
  assumes "i \<le> 2" "j \<le> 2" "i \<noteq> j"
    and "orthogonal (Mat4 r0 r1 r2 r3)"
  shows "orthogonal (Mat4 (vswap r0 i j) (vswap r1 i j) (vswap r2 i j) (vswap r3 i j))"
proof -
  from assms have ij: "(i = 0 \<or> i = 1 \<or> i = 2) \<and> (j = 0 \<or> j = 1 \<or> j = 2)"
    by auto
  show ?thesis
    using assms(4) ij
    by (cases r0; cases r1; cases r2; cases r3)
      (auto simp: orthogonal_def mcol_def mtranspose_def row_times_def identity4x4_def ac_simps)
qed


lemma setAxisSwap_valid:
  assumes "valid_swap (a1, a2)"
  shows "setAxisSwap a1 a2 s =
     Inr (s\<lparr>s_axisSwap := mat_mul (s_axisSwap s) (swap_rows identity4x4 (nat a1) (nat a2))\<rparr>)"
  using assms by (simp add: setAxisSwap_def valid_swap_def)

lemma setAxisSwap_keeps:
  assumes v: "valid_swap (a1, a2)"
    and sp: "signed_permutation (s_axisSwap s)" and orth: "orthogonal (s_axisSwap s)"
  shows "\<exists>s'. setAxisSwap a1 a2 s = Inr s'
     \<and> signed_permutation (s_axisSwap s') \<and> orthogonal (s_axisSwap s')"
proof -
  obtain r0 r1 r2 r3 where m: "s_axisSwap s = Mat4 r0 r1 r2 r3"
    by (cases "s_axisSwap s") blast
  from v have i: "nat a1 \<le> 2" and j: "nat a2 \<le> 2" and ij: "nat a1 \<noteq> nat a2"
    by (auto simp: valid_swap_def)
  have "signed_permutation (mat_mul (s_axisSwap s) (swap_rows identity4x4 (nat a1) (nat a2)))"
    using signed_permutation_swap [OF i j ij] sp
    by (simp only: m mat_mul_swap [OF i j ij])
  moreover
  have "orthogonal (mat_mul (s_axisSwap s) (swap_rows identity4x4 (nat a1) (nat a2)))"
    using orthogonal_swap [OF i j ij] orth
    by (simp only: m mat_mul_swap [OF i j ij])
  ultimately show ?thesis
    by (simp add: setAxisSwap_valid [OF v])
qed

lemma setAxisSwaps_keep:
  "list_all valid_swap ops \<Longrightarrow> signed_permutation (s_axisSwap s) \<Longrightarrow>
   orthogonal (s_axisSwap s) \<Longrightarrow>
   \<exists>s'. setAxisSwaps ops s = Inr s'
     \<and> signed_permutation (s_axisSwap s') \<and> orthogonal (s_axisSwap s')"
proof (induction ops arbitrary: s)
  case Nil
  then show ?case by simp
next
  case (Cons p ops)
  obtain a1 a2 where p: "p = (a1, a2)"
    by (cases p)
  from Cons.prems(1) have v: "valid_swap (a1, a2)" and rest: "list_all valid_swap ops"
    by (simp_all add: p)
  from setAxisSwap_keeps [OF v Cons.prems(2) Cons.prems(3)]
  obtain s1 where s1: "setAxisSwap a1 a2 s = Inr s1"
    "signed_permutation (s_axisSwap s1)" "orthogonal (s_axisSwap s1)"
    by blast
  from Cons.IH [OF rest s1(2) s1(3)] show ?case
    by (simp add: p s1(1))
qed

lemma identity_signed_permutation:
  "signed_permutation identity4x4 \<and> orthogonal identity4x4"
  by (simp add: signed_permutation_def orthogonal_def identity4x4_def mcol_def mtranspose_def
      row_times_def unit_entry_def nz_def)

text \<open>
  C7: every sequence of valid calls of \<open>setAxisSwap\<close> (distinct indices from 0 to
  2) from the initial state succeeds and leaves a cumulative transform that is orthogonal,
  has all entries among 0, 1 and -1 and exactly one nonzero entry in each row and each
  column; and a single valid call keeps these properties of any matrix that has them.
\<close>

theorem setAxisSwap_signed_permutation:
  "(list_all valid_swap ops \<longrightarrow>
      (\<exists>s'. setAxisSwaps ops (init_state silent flags w) = Inr s'
         \<and> signed_permutation (s_axisSwap s') \<and> orthogonal (s_axisSwap s')))
   \<and> (valid_swap (a1, a2) \<and> signed_permutation (s_axisSwap s) \<and> orthogonal (s_axisSwap s) \<longrightarrow>
      (\<exists>s'. setAxisSwap a1 a2 s = Inr s'
         \<and> signed_permutation (s_axisSwap s') \<and> orthogonal (s_axisSwap s')))"
proof -
  have "s_axisSwap (init_state silent flags w) = identity4x4"
    by (simp add: init_state_def)
  then show ?thesis
    using setAxisSwaps_keep [of ops "init_state silent flags w"] setAxisSwap_keeps [of a1 a2 s]
      identity_signed_permutation
    by auto
qed

theorem setAxisSwap_signed_permutation_witness:
  "list_all valid_swap [(0, 1), (1, 2), (2, 0)]
   \<and> valid_swap (0, 2)
   \<and> signed_permutation (s_axisSwap (init_state False [] False))
   \<and> orthogonal (s_axisSwap (init_state False [] False))
   \<and> (\<exists>s'. setAxisSwaps [(0, 1), (1, 2), (2, 0)] (init_state False [] False) = Inr s'
         \<and> signed_permutation (s_axisSwap s') \<and> orthogonal (s_axisSwap s'))
   \<and> (\<exists>s'. setAxisSwap 0 2 (init_state False [] False) = Inr s'
         \<and> signed_permutation (s_axisSwap s') \<and> orthogonal (s_axisSwap s'))"
proof -
  have a: "list_all valid_swap [(0, 1), (1, 2), (2, 0)]" and b: "valid_swap (0, 2)"
    by (simp_all add: valid_swap_def)
  have c: "signed_permutation (s_axisSwap (init_state False [] False))
      \<and> orthogonal (s_axisSwap (init_state False [] False))"
    using identity_signed_permutation by (simp add: init_state_def)
  from setAxisSwap_signed_permutation
    [of "[(0, 1), (1, 2), (2, 0)]" False "[]" False 0 2 "init_state False [] False"] a b c
  show ?thesis
    by blast
qed

text \<open>
  C6: from a state whose cumulative transform is the identity, \<open>setAxisSwap 0 1\<close>
  twice gives the identity again, and \<open>hasAxisSwap\<close> is false exactly when the
  cumulative transform is the identity matrix.
\<close>

theorem setAxisSwap_twice_identity:
  "(s_axisSwap s = identity4x4 \<longrightarrow>
      (\<exists>s1 s2. setAxisSwap 0 1 s = Inr s1 \<and> setAxisSwap 0 1 s1 = Inr s2
         \<and> hasAxisSwap s1 \<and> getAxisSwap s2 = identity4x4 \<and> \<not> hasAxisSwap s2))
   \<and> (\<not> hasAxisSwap s) = (getAxisSwap s = identity4x4)"
  by (simp add: setAxisSwap_def hasAxisSwap_def getAxisSwap_def identity4x4_def swap_rows_def
      row_times_def mcol_def)

theorem setAxisSwap_twice_identity_witness:
  "s_axisSwap (init_state False [] False) = identity4x4
   \<and> (\<exists>s1 s2. setAxisSwap 0 1 (init_state False [] False) = Inr s1
         \<and> setAxisSwap 0 1 s1 = Inr s2
         \<and> hasAxisSwap s1 \<and> getAxisSwap s2 = identity4x4 \<and> \<not> hasAxisSwap s2)
   \<and> \<not> hasAxisSwap (init_state False [] False)"
proof -
  have a: "s_axisSwap (init_state False [] False) = identity4x4"
    by (simp add: init_state_def)
  from setAxisSwap_twice_identity [of "init_state False [] False"] a
  show ?thesis
    by (simp add: getAxisSwap_def)
qed

section \<open>Properties of fixPath\<close>

lemma str_find_Some:
  "str_find s pat = Some p \<Longrightarrow>
   take (length pat) (drop p s) = pat \<and> (\<forall>j<p. take (length pat) (drop j s) \<noteq> pat)"
proof (induction s arbitrary: p)
  case Nil
  then show ?case by (simp split: if_splits)
next
  case (Cons c cs)
  show ?case
  proof (cases "take (length pat) (c # cs) = pat")
    case True
    with Cons.prems show ?thesis by simp
  next
    case False
    with Cons.prems obtain p' where p': "str_find cs pat = Some p'" "p = Suc p'"
      by auto
    from Cons.IH [OF p'(1)] False show ?thesis
      by (auto simp: p'(2) less_Suc_eq_0_disj)
  qed
qed

lemma str_find_None:
  "(str_find s pat = None) = (\<forall>j. take (length pat) (drop j s) \<noteq> pat)"
proof (induction s)
  case Nil
  then show ?case by auto
next
  case (Cons c cs)
  show ?case
  proof (cases "take (length pat) (c # cs) = pat")
    case True
    then have "take (length pat) (drop 0 (c # cs)) = pat" by simp
    with True show ?thesis by (metis str_find.simps(2) option.distinct(1))
  next
    case False
    have "(\<forall>j. take (length pat) (drop j (c # cs)) \<noteq> pat) =
        (\<forall>j. take (length pat) (drop j cs) \<noteq> pat)"
    proof
      assume a: "\<forall>j. take (length pat) (drop j (c # cs)) \<noteq> pat"
      show "\<forall>j. take (length pat) (drop j cs) \<noteq> pat"
      proof
        fix j
        from a have "take (length pat) (drop (Suc j) (c # cs)) \<noteq> pat" by blast
        then show "take (length pat) (drop j cs) \<noteq> pat" by simp
      qed
    next
      assume a: "\<forall>j. take (length pat) (drop j cs) \<noteq> pat"
      show "\<forall>j. take (length pat) (drop j (c # cs)) \<noteq> pat"
      proof
        fix j
        show "take (length pat) (drop j (c # cs)) \<noteq> pat"
          using a False by (cases j) auto
      qed
    qed
    with False Cons.IH show ?thesis by simp
  qed
qed

lemma str_find_first:
  assumes "take (length pat) (drop p s) = pat"
    and "\<forall>j<p. take (length pat) (drop j s) \<noteq> pat"
  shows "str_find s pat = Some p"
proof (cases "str_find s pat")
  case None
  with assms(1) show ?thesis by (simp add: str_find_None)
next
  case (Some q)
  from str_find_Some [OF Some] assms have "\<not> q < p" "\<not> p < q"
    by auto
  with Some show ?thesis by simp
qed

lemma str_find_bound:
  assumes "str_find s pat = Some p" and "pat \<noteq> []"
  shows "p + length pat \<le> length s"
proof -
  from assms(1) have "take (length pat) (drop p s) = pat"
    using str_find_Some by blast
  then have "length (take (length pat) (drop p s)) = length pat"
    by simp
  then have "length pat \<le> length s - p"
    by simp
  moreover from assms(2) have "0 < length pat"
    by simp
  ultimately show ?thesis
    by arith
qed

lemma take2_drop:
  "(take (Suc (Suc 0)) (drop i s) = [x, y]) = (Suc i < length s \<and> s ! i = x \<and> s ! Suc i = y)"
proof (cases "Suc i < length s")
  case True
  then have "drop i s = s ! i # s ! Suc i # drop (Suc (Suc i)) s"
    by (metis Cons_nth_drop_Suc Suc_lessD)
  then show ?thesis using True by simp
next
  case False
  have "take (Suc (Suc 0)) (drop i s) \<noteq> [x, y]"
  proof
    assume "take (Suc (Suc 0)) (drop i s) = [x, y]"
    then have "length (take (Suc (Suc 0)) (drop i s)) = Suc (Suc 0)"
      by simp
    then have "Suc (Suc 0) \<le> length s - i"
      by simp
    with False show False by arith
  qed
  with False show ?thesis by simp
qed

lemma no_doubles_iff:
  "(str_find s [bslash, bslash] = None) =
   (\<forall>i. Suc i < length s \<longrightarrow> \<not> (s ! i = bslash \<and> s ! Suc i = bslash))"
proof -
  have "(str_find s [bslash, bslash] = None) =
      (\<forall>j. take (Suc (Suc 0)) (drop j s) \<noteq> [bslash, bslash])"
    using str_find_None [of s "[bslash, bslash]"] by simp
  then show ?thesis
    by (simp only: take2_drop) blast
qed

lemma take4_drop:
  assumes "p + 4 \<le> length s"
  shows "take (Suc (Suc (Suc (Suc 0)))) (drop p s) =
     [s ! p, s ! (p + 1), s ! (p + 2), s ! (p + 3)]"
proof -
  have a: "drop p s = s ! p # drop (Suc p) s"
    using assms by (simp add: Cons_nth_drop_Suc)
  have b: "drop (Suc p) s = s ! (Suc p) # drop (Suc (Suc p)) s"
    using assms by (simp add: Cons_nth_drop_Suc)
  have c: "drop (Suc (Suc p)) s = s ! (Suc (Suc p)) # drop (Suc (Suc (Suc p))) s"
    using assms by (simp add: Cons_nth_drop_Suc)
  have d: "drop (Suc (Suc (Suc p))) s =
      s ! (Suc (Suc (Suc p))) # drop (Suc (Suc (Suc (Suc p)))) s"
    using assms by (simp add: Cons_nth_drop_Suc)
  have e: "p + 2 = Suc (Suc p)" "p + 3 = Suc (Suc (Suc p))"
    by simp_all
  show ?thesis
    by (simp add: a b c d e)
qed

lemma pattern_at:
  assumes "str_find s [bslash, dot, dot, bslash] = Some p"
  shows "p + 4 \<le> length s \<and> s ! p = bslash \<and> s ! (p + 1) = dot \<and> s ! (p + 2) = dot
     \<and> s ! (p + 3) = bslash"
proof -
  from str_find_bound [OF assms] have b: "p + 4 \<le> length s"
    by simp
  from str_find_Some [OF assms]
  have "take (Suc (Suc (Suc (Suc 0)))) (drop p s) = [bslash, dot, dot, bslash]"
    by simp
  then have "[s ! p, s ! (p + 1), s ! (p + 2), s ! (p + 3)] = [bslash, dot, dot, bslash]"
    by (simp only: take4_drop [OF b])
  with b show ?thesis
    by simp
qed


lemma removeDoubles_step:
  assumes "str_find s [bslash, bslash] = Some p"
  shows "removeDoubles s = removeDoubles (take p s @ drop (Suc p) s)"
proof -
  from str_find_bound [OF assms] have "p + 2 \<le> length s"
    by simp
  then show ?thesis
    by (simp add: removeDoubles.simps [of s] assms substr_def)
qed

lemma removeDoubles_props:
  "\<exists>r. removeDoubles s = Some r \<and> str_find r [bslash, bslash] = None \<and> set r \<subseteq> set s"
proof (induction s rule: length_induct)
  case (1 s)
  show ?case
  proof (cases "str_find s [bslash, bslash]")
    case None
    then show ?thesis
      by (simp add: removeDoubles.simps [of s])
  next
    case (Some p)
    from str_find_bound [OF Some] have b: "p + 2 \<le> length s"
      by simp
    then have "length (take p s @ drop (Suc p) s) < length s"
      by simp
    with 1 obtain r where r: "removeDoubles (take p s @ drop (Suc p) s) = Some r"
      "str_find r [bslash, bslash] = None" "set r \<subseteq> set (take p s @ drop (Suc p) s)"
      by blast
    have "set (take p s @ drop (Suc p) s) \<subseteq> set s"
      by (auto dest: in_set_takeD in_set_dropD)
    with r show ?thesis
      by (simp add: removeDoubles_step [OF Some]) blast
  qed
qed

lemma scrollBack_props:
  "q0 < length s \<Longrightarrow>
   \<exists>q. scrollBack s q0 = Some q \<and> q \<le> q0 \<and> (0 < q \<longrightarrow> s ! q = bslash)"
proof (induction q0)
  case 0
  then show ?case by simp
next
  case (Suc q0)
  then obtain q where "scrollBack s q0 = Some q" "q \<le> q0" "0 < q \<longrightarrow> s ! q = bslash"
    by auto
  with Suc.prems show ?case
    by (auto simp: at_def)
qed

lemma collapseParentRefs_step:
  assumes "str_find s [bslash, dot, dot, bslash] = Some p"
  shows "\<exists>q. scrollBack s (p - 1) = Some q \<and> q \<le> p \<and> (0 < q \<longrightarrow> s ! q = bslash)
     \<and> collapseParentRefs s = collapseParentRefs (take q s @ drop (p + 3) s)"
proof -
  from pattern_at [OF assms] have b: "p + 4 \<le> length s"
    by simp
  then have "p - 1 < length s"
    by simp
  from scrollBack_props [OF this] obtain q where q: "scrollBack s (p - 1) = Some q"
    "q \<le> p - 1" "0 < q \<longrightarrow> s ! q = bslash"
    by blast
  have "(if 0 < p then p - 1 else p) = p - 1"
    by simp
  with q b have "collapseParentRefs s = collapseParentRefs (take q s @ drop (p + 3) s)"
    by (simp add: collapseParentRefs.simps [of s] assms substr_def)
  with q show ?thesis
    by auto
qed


lemma cut_no_doubles:
  assumes nd: "\<forall>i. Suc i < length s \<longrightarrow> \<not> (s ! i = bslash \<and> s ! Suc i = bslash)"
    and q: "q \<le> p" "0 < q \<longrightarrow> s ! q = bslash"
    and p: "p + 4 \<le> length s"
  shows "\<forall>i. Suc i < length (take q s @ drop (p + 3) s) \<longrightarrow>
     \<not> ((take q s @ drop (p + 3) s) ! i = bslash \<and> (take q s @ drop (p + 3) s) ! Suc i = bslash)"
proof (intro allI impI)
  fix i
  assume len: "Suc i < length (take q s @ drop (p + 3) s)"
  have qs: "q \<le> length s"
    using q(1) p by simp
  then have lq: "length (take q s) = q"
    by simp
  consider "Suc i < q" | "Suc i = q" | "q \<le> i"
    by linarith
  then show "\<not> ((take q s @ drop (p + 3) s) ! i = bslash
      \<and> (take q s @ drop (p + 3) s) ! Suc i = bslash)"
  proof cases
    case 1
    then have "(take q s @ drop (p + 3) s) ! i = s ! i"
      "(take q s @ drop (p + 3) s) ! Suc i = s ! Suc i"
      using qs by (simp_all add: nth_append)
    moreover from 1 q(1) p have "Suc i < length s"
      by simp
    ultimately show ?thesis
      using nd by simp
  next
    case 2
    then have "(take q s @ drop (p + 3) s) ! i = s ! i"
      using qs by (simp add: nth_append)
    moreover from 2 q(2) have "s ! Suc i = bslash"
      by simp
    moreover from 2 q(1) p have "Suc i < length s"
      by simp
    ultimately show ?thesis
      using nd by auto
  next
    case 3
    then have a: "(take q s @ drop (p + 3) s) ! i = s ! (p + 3 + (i - q))"
      using p qs by (simp add: nth_append)
    from 3 have b: "(take q s @ drop (p + 3) s) ! Suc i = s ! (p + 3 + (Suc i - q))"
      using p qs by (simp add: nth_append)
    from 3 have c: "p + 3 + (Suc i - q) = Suc (p + 3 + (i - q))"
      by simp
    from len 3 p qs have "Suc (p + 3 + (i - q)) < length s"
      by simp
    with nd a b c show ?thesis
      by simp
  qed
qed

lemma cut_keeps_trailing_dots:
  assumes s: "s = u @ [bslash, dot, dot]"
    and p: "p + 4 \<le> length s" "s ! (p + 3) = bslash"
  shows "\<exists>v. take q s @ drop (p + 3) s = v @ [bslash, dot, dot]"
proof -
  have "p + 3 \<le> length u"
  proof (rule ccontr)
    assume "\<not> p + 3 \<le> length u"
    with p(1) s have "p + 3 = Suc (length u) \<or> p + 3 = Suc (Suc (length u))"
      by auto
    then have "s ! (p + 3) = dot"
      by (auto simp: s nth_append)
    with p(2) show False by simp
  qed
  then have "drop (p + 3) s = drop (p + 3) u @ [bslash, dot, dot]"
    by (simp add: s)
  then have "take q s @ drop (p + 3) s = (take q s @ drop (p + 3) u) @ [bslash, dot, dot]"
    by simp
  then show ?thesis by blast
qed

lemma collapseParentRefs_props:
  "\<exists>r. collapseParentRefs s = Some r \<and> str_find r [bslash, dot, dot, bslash] = None
     \<and> set r \<subseteq> set s
     \<and> ((\<forall>i. Suc i < length s \<longrightarrow> \<not> (s ! i = bslash \<and> s ! Suc i = bslash)) \<longrightarrow>
        (\<forall>i. Suc i < length r \<longrightarrow> \<not> (r ! i = bslash \<and> r ! Suc i = bslash)))
     \<and> ((\<exists>u. s = u @ [bslash, dot, dot]) \<longrightarrow> (\<exists>v. r = v @ [bslash, dot, dot]))"
proof (induction s rule: length_induct)
  case (1 s)
  show ?case
  proof (cases "str_find s [bslash, dot, dot, bslash]")
    case None
    then show ?thesis
      by (simp add: collapseParentRefs.simps [of s])
  next
    case (Some p)
    from pattern_at [OF Some] have p: "p + 4 \<le> length s" "s ! (p + 3) = bslash"
      by simp_all
    from collapseParentRefs_step [OF Some] obtain q where q: "q \<le> p" "0 < q \<longrightarrow> s ! q = bslash"
      and step: "collapseParentRefs s = collapseParentRefs (take q s @ drop (p + 3) s)"
      by blast
    define t where "t = take q s @ drop (p + 3) s"
    have "length t < length s"
      using q(1) p(1) by (simp add: t_def)
    with 1 obtain r where r: "collapseParentRefs t = Some r"
      "str_find r [bslash, dot, dot, bslash] = None" "set r \<subseteq> set t"
      "(\<forall>i. Suc i < length t \<longrightarrow> \<not> (t ! i = bslash \<and> t ! Suc i = bslash)) \<longrightarrow>
        (\<forall>i. Suc i < length r \<longrightarrow> \<not> (r ! i = bslash \<and> r ! Suc i = bslash))"
      "(\<exists>u. t = u @ [bslash, dot, dot]) \<longrightarrow> (\<exists>v. r = v @ [bslash, dot, dot])"
      by blast
    have sub: "set t \<subseteq> set s"
      by (auto simp: t_def dest: in_set_takeD in_set_dropD)
    have nd: "(\<forall>i. Suc i < length s \<longrightarrow> \<not> (s ! i = bslash \<and> s ! Suc i = bslash)) \<longrightarrow>
        (\<forall>i. Suc i < length t \<longrightarrow> \<not> (t ! i = bslash \<and> t ! Suc i = bslash))"
      unfolding t_def using cut_no_doubles [OF _ q p(1)] by blast
    have tr: "(\<exists>u. s = u @ [bslash, dot, dot]) \<longrightarrow> (\<exists>v. t = v @ [bslash, dot, dot])"
      unfolding t_def using cut_keeps_trailing_dots [OF _ p] by blast
    have "collapseParentRefs s = Some r"
      using step r(1) by (simp add: t_def)
    moreover have "set r \<subseteq> set s"
      using r(3) sub by blast
    ultimately show ?thesis
      using r(2) r(4) r(5) nd tr by blast
  qed
qed


lemma removeDoubles_unchanged:
  "str_find s [bslash, bslash] = None \<Longrightarrow> removeDoubles s = Some s"
  by (simp add: removeDoubles.simps [of s])

lemma collapseParentRefs_unchanged:
  "str_find s [bslash, dot, dot, bslash] = None \<Longrightarrow> collapseParentRefs s = Some s"
  by (simp add: collapseParentRefs.simps [of s])

lemma slashesToBackslashes_unchanged:
  "fslash \<notin> set s \<Longrightarrow> slashesToBackslashes s = s"
  by (induction s) (auto simp: slashesToBackslashes_def)

lemma slashesToBackslashes_no_slash: "fslash \<notin> set (slashesToBackslashes s)"
  by (auto simp: slashesToBackslashes_def)

text \<open>
  C8: \<open>fixPath\<close> returns for every input; applied to its result it returns the
  result again; the result has no forward slash and no two adjacent backslashes.
\<close>

theorem fixPath_idempotent:
  "\<exists>r. fixPath P = Some r \<and> fixPath r = Some r \<and> fslash \<notin> set r
     \<and> (\<forall>i. Suc i < length r \<longrightarrow>
          \<not> ((r ! i = bslash \<or> r ! i = fslash) \<and> (r ! Suc i = bslash \<or> r ! Suc i = fslash)))"
proof -
  obtain s2 where s2: "removeDoubles (slashesToBackslashes P) = Some s2"
    "str_find s2 [bslash, bslash] = None" "set s2 \<subseteq> set (slashesToBackslashes P)"
    using removeDoubles_props by blast
  from s2(2) have nd2: "\<forall>i. Suc i < length s2 \<longrightarrow> \<not> (s2 ! i = bslash \<and> s2 ! Suc i = bslash)"
    by (simp only: no_doubles_iff)
  obtain r where r: "collapseParentRefs s2 = Some r"
    "str_find r [bslash, dot, dot, bslash] = None" "set r \<subseteq> set s2"
    "\<forall>i. Suc i < length r \<longrightarrow> \<not> (r ! i = bslash \<and> r ! Suc i = bslash)"
    using collapseParentRefs_props [of s2] nd2 by blast
  have first: "fixPath P = Some r"
    by (simp add: fixPath_def s2(1) r(1))
  have ns: "fslash \<notin> set r"
    using r(3) s2(3) slashesToBackslashes_no_slash by blast
  from r(4) have "str_find r [bslash, bslash] = None"
    by (simp only: no_doubles_iff)
  then have second: "fixPath r = Some r"
    by (simp add: fixPath_def slashesToBackslashes_unchanged [OF ns] removeDoubles_unchanged
        collapseParentRefs_unchanged [OF r(2)])
  have "\<forall>i. Suc i < length r \<longrightarrow>
      \<not> ((r ! i = bslash \<or> r ! i = fslash) \<and> (r ! Suc i = bslash \<or> r ! Suc i = fslash))"
  proof (intro allI impI)
    fix i
    assume i: "Suc i < length r"
    then have "r ! i \<in> set r" "r ! Suc i \<in> set r"
      by simp_all
    with ns have "r ! i \<noteq> fslash" "r ! Suc i \<noteq> fslash"
      by metis+
    with r(4) i show "\<not> ((r ! i = bslash \<or> r ! i = fslash)
        \<and> (r ! Suc i = bslash \<or> r ! Suc i = fslash))"
      by blast
  qed
  with first second ns show ?thesis
    by blast
qed

theorem fixPath_idempotent_witness:
  "fixPath ''a/b//c'' = Some [CHR ''a'', bslash, CHR ''b'', bslash, CHR ''c'']
   \<and> fixPath [CHR ''a'', bslash, CHR ''b'', bslash, CHR ''c''] =
       Some [CHR ''a'', bslash, CHR ''b'', bslash, CHR ''c'']
   \<and> fslash \<notin> set [CHR ''a'', bslash, CHR ''b'', bslash, CHR ''c'']
   \<and> (\<exists>r. fixPath ''a/b//c'' = Some r \<and> fixPath r = Some r \<and> fslash \<notin> set r)"
proof -
  have e: "fixPath ''a/b//c'' = Some [CHR ''a'', bslash, CHR ''b'', bslash, CHR ''c'']"
    by (simp add: fixPath_def slashesToBackslashes_def removeDoubles.simps
        collapseParentRefs.simps substr_def)
  from fixPath_idempotent [of "''a/b//c''"] obtain r where r: "fixPath ''a/b//c'' = Some r"
    "fixPath r = Some r" "fslash \<notin> set r"
    by blast
  from r(1) e have "r = [CHR ''a'', bslash, CHR ''b'', bslash, CHR ''c'']"
    by simp
  with r e show ?thesis
    by blast
qed

lemma scrollBack_segment:
  assumes "bslash \<notin> set B"
  shows "k \<le> length B \<Longrightarrow> scrollBack (A @ bslash # B @ R) (length A + k) = Some (length A)"
proof (induction k)
  case 0
  show ?case
    by (cases "length A") (simp_all add: at_def nth_append)
next
  case (Suc k)
  then have k: "k < length B"
    by simp
  then have "B ! k \<in> set B"
    by simp
  with assms have nb: "B ! k \<noteq> bslash"
    by metis
  have "(A @ bslash # B @ R) ! (length A + Suc k) = B ! k"
    using k by (simp add: nth_append)
  moreover have "length A + Suc k < length (A @ bslash # B @ R)"
    using k by simp
  ultimately have "at (A @ bslash # B @ R) (Suc (length A + k)) = Some (B ! k)"
    by (simp add: at_def)
  then have "scrollBack (A @ bslash # B @ R) (Suc (length A + k)) =
      scrollBack (A @ bslash # B @ R) (length A + k)"
    using nb by simp
  with Suc.IH k show ?case
    by simp
qed

lemma take_drop_within:
  "j + n \<le> length X \<Longrightarrow> take n (drop j (X @ Y)) = take n (drop j X)"
  by simp

lemma collapse_shape:
  assumes B: "B \<noteq> []" "bslash \<notin> set B"
    and X: "str_find (A @ [bslash] @ B @ [bslash, dot, dot]) [bslash, dot, dot, bslash] = None"
    and AC: "str_find (A @ [bslash] @ C) [bslash, dot, dot, bslash] = None"
  shows "collapseParentRefs (A @ [bslash] @ B @ [bslash, dot, dot, bslash] @ C) =
     Some (A @ [bslash] @ C)"
proof -
  define s where "s = A @ [bslash] @ B @ [bslash, dot, dot, bslash] @ C"
  define p where "p = length A + 1 + length B"
  have s1: "s = (A @ [bslash] @ B) @ [bslash, dot, dot, bslash] @ C"
    by (simp add: s_def)
  have s2: "s = (A @ [bslash] @ B @ [bslash, dot, dot]) @ (bslash # C)"
    by (simp add: s_def)
  have s3: "s = A @ bslash # B @ ([bslash, dot, dot, bslash] @ C)"
    by (simp add: s_def)
  have s4: "s = (A @ [bslash] @ B @ [bslash, dot, dot]) @ bslash # C"
    by (simp add: s_def)
  have occ: "take (length [bslash, dot, dot, bslash]) (drop p s) = [bslash, dot, dot, bslash]"
    unfolding s1 p_def by simp
  have before: "\<forall>j<p. take (length [bslash, dot, dot, bslash]) (drop j s) \<noteq>
      [bslash, dot, dot, bslash]"
  proof (intro allI impI)
    fix j
    assume "j < p"
    then have "j + length [bslash, dot, dot, bslash] \<le>
        length (A @ [bslash] @ B @ [bslash, dot, dot])"
      by (simp add: p_def)
    then have "take (length [bslash, dot, dot, bslash]) (drop j s) =
        take (length [bslash, dot, dot, bslash]) (drop j (A @ [bslash] @ B @ [bslash, dot, dot]))"
      unfolding s2 by (rule take_drop_within)
    moreover from X have "take (length [bslash, dot, dot, bslash])
        (drop j (A @ [bslash] @ B @ [bslash, dot, dot])) \<noteq> [bslash, dot, dot, bslash]"
      unfolding str_find_None by (rule spec)
    ultimately show "take (length [bslash, dot, dot, bslash]) (drop j s) \<noteq>
        [bslash, dot, dot, bslash]"
      by metis
  qed
  have f: "str_find s [bslash, dot, dot, bslash] = Some p"
    using str_find_first [OF occ before] .
  have "p - 1 = length A + length B"
    by (simp add: p_def)
  then have sb: "scrollBack s (p - 1) = Some (length A)"
    unfolding s3 using scrollBack_segment [OF B(2)] by simp
  from collapseParentRefs_step [OF f] sb
  have "collapseParentRefs s = collapseParentRefs (take (length A) s @ drop (p + 3) s)"
    by auto
  moreover have "take (length A) s = A"
    by (simp add: s_def)
  moreover have "drop (p + 3) s = bslash # C"
  proof -
    define X where "X = A @ [bslash] @ B @ [bslash, dot, dot]"
    have "s = X @ bslash # C" "p + 3 = length X"
      by (simp_all add: s_def p_def X_def)
    then show ?thesis
      by simp
  qed
  ultimately have "collapseParentRefs s = collapseParentRefs (A @ [bslash] @ C)"
    by simp
  with collapseParentRefs_unchanged [OF AC] show ?thesis
    by (simp add: s_def)
qed


lemma fixPath_collapse:
  assumes "fslash \<notin> set s" and "str_find s [bslash, bslash] = None"
  shows "fixPath s = collapseParentRefs s"
  by (simp add: fixPath_def slashesToBackslashes_unchanged [OF assms(1)]
      removeDoubles_unchanged [OF assms(2)])

text \<open>
  C9, as stated, fails: for A = a, B = .. and C = c the path has the shape
  A, backslash, B, backslash, dot dot, backslash, C with B nonempty and free of separators,
  and the collapsing returns backslash c, not a backslash c.
\<close>

theorem collapseParentRefs_shape_counterexample:
  "''..'' \<noteq> [] \<and> bslash \<notin> set ''..'' \<and> fslash \<notin> set ''..''
   \<and> collapseParentRefs (''a'' @ [bslash] @ ''..'' @ [bslash, dot, dot, bslash] @ ''c'') =
       Some ([bslash] @ ''c'')
   \<and> collapseParentRefs (''a'' @ [bslash] @ ''..'' @ [bslash, dot, dot, bslash] @ ''c'') \<noteq>
       Some (''a'' @ [bslash] @ ''c'')
   \<and> fixPath (''a'' @ [bslash] @ ''..'' @ [bslash, dot, dot, bslash] @ ''c'') =
       Some ([bslash] @ ''c'')"
  by (simp add: fixPath_def slashesToBackslashes_def removeDoubles.simps
      collapseParentRefs.simps substr_def at_def)

text \<open>
  C9, amended: for a path of the shape A, backslash, B, backslash, dot dot, backslash, C
  with B nonempty and free of backslashes, where the pattern backslash dot dot backslash
  occurs neither in A, backslash, B, backslash, dot dot nor in A, backslash, C, the
  collapsing returns A, backslash, C. A string in which the pattern does not occur comes
  back unchanged, and a string that ends in backslash dot dot still ends so after the
  collapsing. On a path without forward slash and without doubled backslash \<open>fixPath\<close>
  is this collapsing.
\<close>

theorem collapseParentRefs_shape:
  "(B \<noteq> [] \<and> bslash \<notin> set B
      \<and> str_find (A @ [bslash] @ B @ [bslash, dot, dot]) [bslash, dot, dot, bslash] = None
      \<and> str_find (A @ [bslash] @ C) [bslash, dot, dot, bslash] = None \<longrightarrow>
      collapseParentRefs (A @ [bslash] @ B @ [bslash, dot, dot, bslash] @ C) =
        Some (A @ [bslash] @ C))
   \<and> (str_find s [bslash, dot, dot, bslash] = None \<longrightarrow> collapseParentRefs s = Some s)
   \<and> (\<exists>v. collapseParentRefs (u @ [bslash, dot, dot]) = Some (v @ [bslash, dot, dot]))
   \<and> (fslash \<notin> set s \<and> str_find s [bslash, bslash] = None \<longrightarrow>
        fixPath s = collapseParentRefs s)"
proof -
  have "\<exists>v. collapseParentRefs (u @ [bslash, dot, dot]) = Some (v @ [bslash, dot, dot])"
    using collapseParentRefs_props [of "u @ [bslash, dot, dot]"] by blast
  then show ?thesis
    using collapse_shape [of B A C] collapseParentRefs_unchanged [of s] fixPath_collapse [of s]
    by blast
qed

theorem collapseParentRefs_shape_witness:
  "''b'' \<noteq> [] \<and> bslash \<notin> set ''b''
   \<and> str_find (''a'' @ [bslash] @ ''b'' @ [bslash, dot, dot]) [bslash, dot, dot, bslash] = None
   \<and> str_find (''a'' @ [bslash] @ ''c'') [bslash, dot, dot, bslash] = None
   \<and> fslash \<notin> set (''a'' @ [bslash] @ ''b'' @ [bslash, dot, dot])
   \<and> str_find (''a'' @ [bslash] @ ''b'' @ [bslash, dot, dot]) [bslash, bslash] = None
   \<and> collapseParentRefs (''a'' @ [bslash] @ ''b'' @ [bslash, dot, dot, bslash] @ ''c'') =
       Some (''a'' @ [bslash] @ ''c'')
   \<and> collapseParentRefs (''a'' @ [bslash] @ ''b'' @ [bslash, dot, dot]) =
       Some (''a'' @ [bslash] @ ''b'' @ [bslash, dot, dot])
   \<and> fixPath (''a'' @ [bslash] @ ''b'' @ [bslash, dot, dot]) =
       Some (''a'' @ [bslash] @ ''b'' @ [bslash, dot, dot])"
proof -
  have a: "''b'' \<noteq> [] \<and> bslash \<notin> set ''b''"
    and b: "str_find (''a'' @ [bslash] @ ''b'' @ [bslash, dot, dot])
        [bslash, dot, dot, bslash] = None"
    and c: "str_find (''a'' @ [bslash] @ ''c'') [bslash, dot, dot, bslash] = None"
    and d: "fslash \<notin> set (''a'' @ [bslash] @ ''b'' @ [bslash, dot, dot])"
    and e: "str_find (''a'' @ [bslash] @ ''b'' @ [bslash, dot, dot]) [bslash, bslash] = None"
    by simp_all
  from collapseParentRefs_shape [of "''b''" "''a''" "''c''"
      "''a'' @ [bslash] @ ''b'' @ [bslash, dot, dot]" "''a'' @ [bslash] @ ''b''"] a b c d e
  show ?thesis
    by simp
qed

end
